theory Spec2Isabelle
  imports Main
begin

section \<open>Python strings\<close>

text \<open>
  A Python \<open>str\<close> is a sequence of Unicode code points; a code point is a natural
  number. Literals are written \<open>str ''...''\<close>.
\<close>

type_synonym pystr = "nat list"

definition str :: "string \<Rightarrow> pystr" where
  "str s = map of_char s"

text \<open>\<open>sep.join(xs)\<close>.\<close>

fun join :: "pystr \<Rightarrow> pystr list \<Rightarrow> pystr" where
  "join sep [] = []"
| "join sep [x] = x"
| "join sep (x # y # ys) = x @ sep @ join sep (y # ys)"

text \<open>\<open>s.replace(old, new)\<close> for a one-character \<open>old\<close>.\<close>

definition replace :: "nat \<Rightarrow> pystr \<Rightarrow> pystr \<Rightarrow> pystr" where
  "replace old new s = concat (map (\<lambda>c. if c = old then new else [c]) s)"

text \<open>
  \<open>xml.sax.saxutils.escape(data)\<close> with no extra entities: three successive
  replacements, the ampersand first.
\<close>

definition escape :: "pystr \<Rightarrow> pystr" where
  "escape data =
     replace 60 (str ''&lt;'') (replace 62 (str ''&gt;'') (replace 38 (str ''&amp;'') data))"

section \<open>Character classes\<close>

text \<open>
  The code points for which \<open>str.isspace\<close> holds. \<open>str.strip\<close>, \<open>str.rstrip\<close> and the
  class \<open>\s\<close> of \<open>re\<close> on a \<open>str\<close> pattern all use this set.
\<close>

definition isspace :: "nat \<Rightarrow> bool" where
  "isspace c \<longleftrightarrow>
     (9 \<le> c \<and> c \<le> 13) \<or> (28 \<le> c \<and> c \<le> 32) \<or> c = 133 \<or> c = 160 \<or> c = 5760 \<or>
     (8192 \<le> c \<and> c \<le> 8202) \<or> c = 8232 \<or> c = 8233 \<or> c = 8239 \<or> c = 8287 \<or> c = 12288"

text \<open>
  The class \<open>\d\<close> of \<open>re\<close> on a \<open>str\<close> pattern: the Unicode decimal digits (category
  Nd), which come in runs of ten; \<open>nd_zeros\<close> lists the digit zero of each run
  (Unicode 14, the table of CPython 3.11).
\<close>

definition nd_zeros :: "nat list" where
  "nd_zeros =
     [48, 1632, 1776, 1984, 2406, 2534, 2662, 2790, 2918, 3046,
      3174, 3302, 3430, 3558, 3664, 3792, 3872, 4160, 4240, 6112,
      6160, 6470, 6608, 6784, 6800, 6992, 7088, 7232, 7248, 42528,
      43216, 43264, 43472, 43504, 43600, 44016, 65296, 66720, 68912, 69734,
      69872, 69942, 70096, 70384, 70736, 70864, 71248, 71360, 71472, 71904,
      72016, 72784, 73040, 73120, 92768, 92864, 93008, 120782, 120792, 120802,
      120812, 120822, 123200, 123632, 125264, 130032]"

definition isdecimal :: "nat \<Rightarrow> bool" where
  "isdecimal c \<longleftrightarrow> list_ex (\<lambda>z. z \<le> c \<and> c < z + 10) nd_zeros"

text \<open>The line boundaries of \<open>str.splitlines\<close>.\<close>

definition is_linebreak :: "nat \<Rightarrow> bool" where
  "is_linebreak c \<longleftrightarrow>
     (10 \<le> c \<and> c \<le> 13) \<or> (28 \<le> c \<and> c \<le> 30) \<or> c = 133 \<or> c = 8232 \<or> c = 8233"

section \<open>String methods\<close>

text \<open>
  \<open>text.splitlines()\<close>: \<open>cur\<close> holds the characters of the line being read. A
  carriage return followed by a line feed is one boundary, and no empty line follows
  a final boundary.
\<close>

fun splitlines_from :: "pystr \<Rightarrow> pystr \<Rightarrow> pystr list" where
  "splitlines_from cur [] = (if cur = [] then [] else [cur])"
| "splitlines_from cur (c # s) =
     (if c = 13 \<and> take 1 s = [10] then cur # splitlines_from [] (drop 1 s)
      else if is_linebreak c then cur # splitlines_from [] s
      else splitlines_from (cur @ [c]) s)"

definition splitlines :: "pystr \<Rightarrow> pystr list" where
  "splitlines text = splitlines_from [] text"

definition lstrip :: "pystr \<Rightarrow> pystr" where
  "lstrip s = dropWhile isspace s"

definition rstrip :: "pystr \<Rightarrow> pystr" where
  "rstrip s = rev (dropWhile isspace (rev s))"

definition strip :: "pystr \<Rightarrow> pystr" where
  "strip s = rstrip (lstrip s)"

definition startswith :: "pystr \<Rightarrow> pystr \<Rightarrow> bool" where
  "startswith s prefix \<longleftrightarrow> take (length prefix) s = prefix"

section \<open>The regular expressions of \<open>parse_markdown\<close>\<close>

text \<open>
  \<open>re.match(r"^---+$", s)\<close>: three or more hyphens (code point 45) up to the end of
  \<open>s\<close>, where \<open>$\<close> also matches before a final line feed.
\<close>

definition sep_match :: "pystr \<Rightarrow> bool" where
  "sep_match s \<longleftrightarrow>
     (let r = dropWhile (\<lambda>c. c = 45) s
      in 3 \<le> length (takeWhile (\<lambda>c. c = 45) s) \<and> (r = [] \<or> r = [10]))"

text \<open>
  \<open>re.match(r"^(#{1,6})\s+", line)\<close>: one to six hashes (code point 35) and a
  whitespace character after them.
\<close>

definition heading_prefix :: "pystr \<Rightarrow> bool" where
  "heading_prefix line \<longleftrightarrow>
     (let n = length (takeWhile (\<lambda>c. c = 35) line); after = drop n line
      in 1 \<le> n \<and> n \<le> 6 \<and> after \<noteq> [] \<and> isspace (hd after))"

text \<open>
  \<open>re.match(r"^(#{1,6})\s+(.*)$", line)\<close>, as the length of group 1 and group 2.
  The dot matches no line feed and \<open>$\<close> matches at the end or before a final line
  feed, so the text after the whitespace may hold a line feed as its last character
  only, and group 2 stops before it.
\<close>

definition heading_match :: "pystr \<Rightarrow> (nat \<times> pystr) option" where
  "heading_match line =
     (let n = length (takeWhile (\<lambda>c. c = 35) line);
          rest = dropWhile isspace (drop n line)
      in if heading_prefix line \<and> 10 \<notin> set (butlast rest)
         then Some (n, if rest \<noteq> [] \<and> last rest = 10 then butlast rest else rest)
         else None)"

text \<open>
  \<open>re.match(r"^\s*(?:[-*]|\d+\.)\s+", line)\<close>, as the text after the match: leading
  whitespace, then a hyphen (45), an asterisk (42) or digits and a full stop (46), then
  whitespace, each run taken as far as it goes.
\<close>

definition item_rest :: "pystr \<Rightarrow> pystr option" where
  "item_rest line =
     (let a = dropWhile isspace line;
          marker =
            (case a of
               [] \<Rightarrow> None
             | c # b \<Rightarrow>
                 if c = 45 \<or> c = 42 then Some b
                 else (let r = dropWhile isdecimal a
                       in if isdecimal c \<and> r \<noteq> [] \<and> hd r = 46 then Some (tl r) else None))
      in case marker of
           None \<Rightarrow> None
         | Some b \<Rightarrow> if b \<noteq> [] \<and> isspace (hd b) then Some (dropWhile isspace b) else None)"

definition item_match :: "pystr \<Rightarrow> bool" where
  "item_match line \<longleftrightarrow> item_rest line \<noteq> None"

text \<open>\<open>re.sub(r"^\s*(?:[-*]|\d+\.)\s+", "", line).rstrip()\<close>.\<close>

definition item_text :: "pystr \<Rightarrow> pystr" where
  "item_text line = rstrip (case item_rest line of Some r \<Rightarrow> r | None \<Rightarrow> line)"

section \<open>Blocks\<close>

text \<open>
  The tuples \<open>("heading", level, text)\<close>, \<open>("para", text)\<close>, \<open>("list", items)\<close>,
  \<open>("code", content)\<close> and \<open>("separator", "")\<close>; \<open>kind\<close> is the tuple's first
  component.
\<close>

datatype block =
    Heading nat pystr
  | Para pystr
  | ListB "pystr list"
  | Code pystr
  | Separator

fun kind :: "block \<Rightarrow> string" where
  "kind (Heading level text) = ''heading''"
| "kind (Para text) = ''para''"
| "kind (ListB items) = ''list''"
| "kind (Code code) = ''code''"
| "kind Separator = ''separator''"

section \<open>\<open>parse_markdown\<close>\<close>

text \<open>A line whose stripped content starts with three backticks (code point 96).\<close>

definition fence_line :: "pystr \<Rightarrow> bool" where
  "fence_line line \<longleftrightarrow> startswith (strip line) [96, 96, 96]"

text \<open>
  The inner loop of a list: \<open>items\<close> grows while the lines match; the result is the
  items and the lines from the first that does not match.
\<close>

fun list_run :: "pystr list \<Rightarrow> pystr list \<Rightarrow> pystr list \<times> pystr list" where
  "list_run items [] = (items, [])"
| "list_run items (l # ls) =
     (if item_match l then list_run (items @ [item_text l]) ls else (items, l # ls))"

text \<open>
  The inner loop of a paragraph, with its five \<open>break\<close>s; the line it stops at stays
  in the lines returned.
\<close>

fun para_run :: "pystr list \<Rightarrow> pystr list \<Rightarrow> pystr list \<times> pystr list" where
  "para_run para_lines [] = (para_lines, [])"
| "para_run para_lines (next_line # ls) =
     (if strip next_line = [] then (para_lines, next_line # ls)
      else if fence_line next_line then (para_lines, next_line # ls)
      else if heading_prefix next_line then (para_lines, next_line # ls)
      else if item_match next_line then (para_lines, next_line # ls)
      else if sep_match (strip next_line) then (para_lines, next_line # ls)
      else para_run (para_lines @ [strip next_line]) ls)"

lemma list_run_length: "list_run items ls = (it, r) \<Longrightarrow> length r \<le> length ls"
  by (induction ls arbitrary: items) (auto split: if_splits simp: le_Suc_eq)

lemma para_run_length: "para_run ps ls = (p, r) \<Longrightarrow> length r \<le> length ls"
  by (induction ls arbitrary: ps) (auto split: if_splits simp: le_Suc_eq)

text \<open>
  The main loop, on the lines from \<open>lines[i]\<close> on; it returns the loop's variables
  when \<open>i\<close> reaches the end.
\<close>

function loop ::
  "block list \<Rightarrow> bool \<Rightarrow> pystr list \<Rightarrow> pystr list \<Rightarrow> block list \<times> bool \<times> pystr list" where
  "loop blocks in_code code_buf [] = (blocks, in_code, code_buf)"
| "loop blocks in_code code_buf (line # rest) =
     (if fence_line line then
        (if in_code then loop (blocks @ [Code (rstrip (join [10] code_buf))]) False [] rest
         else loop blocks True code_buf rest)
      else if in_code then loop blocks in_code (code_buf @ [line]) rest
      else if strip line = [] then loop blocks in_code code_buf rest
      else if sep_match (strip line) then loop (blocks @ [Separator]) in_code code_buf rest
      else
        (case heading_match line of
           Some (level, text) \<Rightarrow>
             loop (blocks @ [Heading level (strip text)]) in_code code_buf rest
         | None \<Rightarrow>
             if item_match line then
               (case list_run [] (line # rest) of
                  (items, rest') \<Rightarrow> loop (blocks @ [ListB items]) in_code code_buf rest')
             else
               (case para_run [strip line] rest of
                  (para_lines, rest') \<Rightarrow>
                    loop (blocks @ [Para (strip (join [32] para_lines))]) in_code code_buf
                      rest')))"
  by pat_completeness auto
termination
proof (relation "measure (\<lambda>(blocks, in_code, code_buf, lines). length lines)")
qed (auto dest: para_run_length[OF sym] list_run_length[OF sym] split: if_splits)

definition parse_lines :: "pystr list \<Rightarrow> block list" where
  "parse_lines lines = fst (loop [] False [] lines)"

definition parse_markdown :: "pystr \<Rightarrow> block list" where
  "parse_markdown md_text = parse_lines (splitlines md_text)"

text \<open>
  The lines a paragraph goes on with: the inner loop of a paragraph takes a line that is
  not blank, not a fence line, not the start of a heading, not a list item and not a
  separator.
\<close>

definition plain_line :: "pystr \<Rightarrow> bool" where
  "plain_line l \<longleftrightarrow>
     \<not> (strip l = [] \<or> fence_line l \<or> heading_prefix l \<or> item_match l \<or> sep_match (strip l))"

text \<open>
  The lines at which the main loop starts a paragraph: those that none of its earlier
  branches takes.
\<close>

definition para_start :: "pystr \<Rightarrow> bool" where
  "para_start l \<longleftrightarrow>
     \<not> fence_line l \<and> strip l \<noteq> [] \<and> \<not> sep_match (strip l) \<and> heading_match l = None \<and>
     \<not> item_match l"

text \<open>
  Two successive stretches of lines are scanned one after the other when no list and no
  paragraph runs across the boundary between them.
\<close>

definition seam :: "pystr list \<Rightarrow> pystr list \<Rightarrow> bool" where
  "seam pre post \<longleftrightarrow>
     pre = [] \<or> post = [] \<or>
     (\<not> (item_match (last pre) \<and> item_match (hd post)) \<and>
      \<not> (para_start (last pre) \<and> plain_line (hd post)))"


text \<open>
  What is required of a block: a heading level from 1 to 6, a list with an item, and code
  content that \<open>rstrip\<close> leaves unchanged.
\<close>

definition block_ok :: "block \<Rightarrow> bool" where
  "block_ok b \<longleftrightarrow>
     (case b of
        Heading level text \<Rightarrow> 1 \<le> level \<and> level \<le> 6
      | ListB items \<Rightarrow> items \<noteq> []
      | Code content \<Rightarrow> rstrip content = content
      | _ \<Rightarrow> True)"

section \<open>The block renderer of \<open>build_pdf\<close>\<close>

datatype style = style_body | style_h1 | style_h2 | style_h3 | style_code

text \<open>The \<open>fontName\<close> each style is created with.\<close>

fun fontName :: "style \<Rightarrow> string" where
  "fontName style_body = ''LiberationSans''"
| "fontName style_h1 = ''LiberationSans-Bold''"
| "fontName style_h2 = ''LiberationSans-Bold''"
| "fontName style_h3 = ''LiberationSans-Bold''"
| "fontName style_code = ''LiberationMono''"

text \<open>The flowables appended to \<open>story\<close>; \<open>Spacer w h\<close> has a fixed width and height.\<close>

datatype flowable =
    Paragraph pystr style
  | Preformatted pystr style
  | Spacer nat nat

text \<open>The bullet glyph U+2022 followed by a space.\<close>

definition bullet :: pystr where
  "bullet = [8226, 32]"

text \<open>What one iteration of the loop over \<open>blocks\<close> appends to \<open>story\<close>.\<close>

fun render_block :: "block \<Rightarrow> flowable list" where
  "render_block (Heading level text) =
     [Paragraph (escape text)
        (if level = 1 then style_h1 else if level = 2 then style_h2 else style_h3)]"
| "render_block (Para text) = [Paragraph (replace 96 [] (escape text)) style_body]"
| "render_block (ListB items) =
     map (\<lambda>item. Paragraph (bullet @ replace 96 [] (escape item)) style_body) items
       @ [Spacer 1 2]"
| "render_block (Code code) = (if code \<noteq> [] then [Preformatted code style_code] else [])"
| "render_block Separator = [Spacer 1 8]"

fun build_story :: "flowable list \<Rightarrow> block list \<Rightarrow> flowable list" where
  "build_story story [] = story"
| "build_story story (b # blocks) = build_story (story @ render_block b) blocks"

text \<open>
  The markup character by character: what \<open>escape\<close> followed by the removal of every
  backtick makes of one character.
\<close>

definition markup_char :: "nat \<Rightarrow> pystr" where
  "markup_char c =
     (if c = 38 then str ''&amp;'' else if c = 60 then str ''&lt;''
      else if c = 62 then str ''&gt;'' else if c = 96 then [] else [c])"

section \<open>\<open>build_pdf\<close> and \<open>main\<close>\<close>

text \<open>
  What the program reads from its host, and whether each call into the file system, the
  PDF library and the standard output returns or raises: \<open>font_loads\<close> for
  \<open>TTFont(name, path)\<close>, \<open>path_str\<close> for \<open>str(Path(s))\<close>, \<open>path_exists\<close> for
  \<open>input_path.exists()\<close>, which returns a truth value or raises (an \<open>OSError\<close> for a name
  that is too long, for one), \<open>mkdir_parent\<close> for
  \<open>output_path.parent.mkdir(parents=True, exist_ok=True)\<close>, \<open>read_text\<close> for
  \<open>input_path.read_text(encoding="utf-8")\<close>, \<open>doc_build\<close> for what the PDF library does
  with the story, from the constructors of its flowables to the \<open>doc.build\<close> that writes
  the file, and \<open>print_line\<close> for \<open>print\<close>, which raises when the standard output cannot
  take the line (a \<open>UnicodeEncodeError\<close> for a path it cannot encode, for one).
\<close>

datatype exn = TTFError | OSError | UnicodeDecodeError | UnicodeEncodeError | LayoutError

record env =
  font_loads :: "string \<Rightarrow> bool"
  path_str :: "pystr \<Rightarrow> pystr"
  path_exists :: "pystr \<Rightarrow> exn + bool"
  mkdir_parent :: "pystr \<Rightarrow> exn option"
  read_text :: "pystr \<Rightarrow> exn + pystr"
  doc_build :: "pystr \<Rightarrow> flowable list \<Rightarrow> exn option"
  print_line :: "pystr \<Rightarrow> exn option"

definition font_files :: "string list" where
  "font_files =
     [''/usr/share/fonts/liberation/LiberationSans-Regular.ttf'',
      ''/usr/share/fonts/liberation/LiberationSans-Bold.ttf'',
      ''/usr/share/fonts/liberation/LiberationMono-Regular.ttf'']"

definition register_fonts :: "env \<Rightarrow> exn option" where
  "register_fonts e = (if list_all (font_loads e) font_files then None else Some TTFError)"

text \<open>\<open>build_pdf\<close> returns the story it has written, or the exception that ended it.\<close>

definition build_pdf :: "env \<Rightarrow> pystr \<Rightarrow> pystr \<Rightarrow> exn + flowable list" where
  "build_pdf e input_path output_path =
     (case register_fonts e of
        Some x \<Rightarrow> Inl x
      | None \<Rightarrow>
          (case read_text e input_path of
             Inl x \<Rightarrow> Inl x
           | Inr md_text \<Rightarrow>
               (let story = build_story [] (parse_markdown md_text)
                in case doc_build e output_path story of
                     Some x \<Rightarrow> Inl x
                   | None \<Rightarrow> Inr story)))"

text \<open>
  The calls \<open>main\<close> makes to \<open>print\<close>, \<open>mkdir\<close> and \<open>build_pdf\<close>, in order and up to
  the one that raises, and its result: the exit code it returns, or the exception that
  leaves it. \<open>main\<close> has no \<open>try\<close>: an exception of any call ends it there.
\<close>

datatype event = Print pystr | MakeDirs pystr | BuildPdf pystr pystr

definition usage_line :: pystr where
  "usage_line = str ''Usage: generate_pdf.py <input.md> <output.pdf>''"

text \<open>\<open>print(line)\<close> followed by \<open>return code\<close>, after the calls \<open>calls\<close>.\<close>

definition print_return :: "env \<Rightarrow> event list \<Rightarrow> pystr \<Rightarrow> int \<Rightarrow> event list \<times> (exn + int)" where
  "print_return e calls line code =
     (case print_line e line of
        Some x \<Rightarrow> (calls @ [Print line], Inl x)
      | None \<Rightarrow> (calls @ [Print line], Inr code))"

definition main :: "env \<Rightarrow> pystr list \<Rightarrow> event list \<times> (exn + int)" where
  "main e argv =
     (if length argv \<noteq> 3 then print_return e [] usage_line 2
      else
        (let input_path = path_str e (argv ! 1); output_path = path_str e (argv ! 2)
         in case path_exists e input_path of
              Inl x \<Rightarrow> ([], Inl x)
            | Inr found \<Rightarrow>
                if \<not> found
                then print_return e [] (str ''Input not found: '' @ input_path) 1
                else
                  (case mkdir_parent e output_path of
                     Some x \<Rightarrow> ([MakeDirs output_path], Inl x)
                   | None \<Rightarrow>
                       (case build_pdf e input_path output_path of
                          Inl x \<Rightarrow>
                            ([MakeDirs output_path, BuildPdf input_path output_path], Inl x)
                        | Inr story \<Rightarrow>
                            print_return e
                              [MakeDirs output_path, BuildPdf input_path output_path]
                              (str ''Generated: '' @ output_path) 0))))"

text \<open>
  A host on which every call returns, and hosts on which one call raises: the font
  files are missing, the existence check fails, the directory cannot be made, the
  input is not UTF-8, the standard output refuses the line.
\<close>

definition plain_env :: "pystr \<Rightarrow> env" where
  "plain_env md_text =
     \<lparr>font_loads = (\<lambda>f. True), path_str = (\<lambda>s. s),
      path_exists = (\<lambda>s. Inr (s = str ''in.md'')),
      mkdir_parent = (\<lambda>s. None), read_text = (\<lambda>s. Inr md_text),
      doc_build = (\<lambda>s story. None), print_line = (\<lambda>s. None)\<rparr>"

definition fontless_env :: "pystr \<Rightarrow> env" where
  "fontless_env md_text = (plain_env md_text)\<lparr>font_loads := (\<lambda>f. False)\<rparr>"

definition blind_env :: env where
  "blind_env = (plain_env [])\<lparr>path_exists := (\<lambda>s. Inl OSError)\<rparr>"

definition readonly_env :: env where
  "readonly_env = (plain_env [])\<lparr>mkdir_parent := (\<lambda>s. Some OSError)\<rparr>"

definition binary_env :: env where
  "binary_env = (plain_env [])\<lparr>read_text := (\<lambda>s. Inl UnicodeDecodeError)\<rparr>"

definition mute_env :: env where
  "mute_env = (plain_env [])\<lparr>print_line := (\<lambda>s. Some UnicodeEncodeError)\<rparr>"

definition argv_ok :: "pystr list" where
  "argv_ok = [str ''generate_pdf.py'', str ''in.md'', str ''out.pdf'']"

definition argv_missing :: "pystr list" where
  "argv_missing = [str ''generate_pdf.py'', str ''no.md'', str ''out.pdf'']"

section \<open>Properties of the parser\<close>

lemma isspace_not_marker: "isspace c \<Longrightarrow> c \<noteq> 35 \<and> c \<noteq> 42 \<and> c \<noteq> 45 \<and> c \<noteq> 46 \<and> c \<noteq> 96"
  by (auto simp: isspace_def)

lemma isdecimal_cases: "isdecimal c \<Longrightarrow> (48 \<le> c \<and> c < 58) \<or> (1632 \<le> c \<and> c < 5760) \<or> (6112 \<le> c \<and> c < 7258) \<or> 42528 \<le> c"
  by (simp add: isdecimal_def nd_zeros_def) arith

lemma isdecimal_not_space: "isdecimal c \<Longrightarrow> \<not> isspace c"
  by (drule isdecimal_cases) (auto simp: isspace_def)

lemma isdecimal_not_backtick: "\<not> isdecimal 96"
  by (simp add: isdecimal_def nd_zeros_def)

lemma rstrip_Nil: "rstrip [] = []"
  by (simp add: rstrip_def)

lemma rstrip_Cons:
  "rstrip (c # r) = (if isspace c \<and> (\<forall>x\<in>set r. isspace x) then [] else c # rstrip r)"
  by (auto simp: rstrip_def dropWhile_append)

lemma rstrip_empty_iff: "rstrip s = [] \<longleftrightarrow> (\<forall>c\<in>set s. isspace c)"
  by (induction s) (auto simp: rstrip_Nil rstrip_Cons)

lemma dropWhile_all_iff: "(\<forall>c\<in>set (dropWhile P s). P c) \<longleftrightarrow> (\<forall>c\<in>set s. P c)"
  by (induction s) auto

lemma strip_empty_iff: "strip s = [] \<longleftrightarrow> (\<forall>c\<in>set s. isspace c)"
  by (simp add: strip_def lstrip_def rstrip_empty_iff dropWhile_all_iff)

lemma strip_hd:
  assumes "strip s \<noteq> []"
  shows "\<exists>c b. dropWhile isspace s = c # b \<and> \<not> isspace c \<and> strip s = c # rstrip b"
proof (cases "dropWhile isspace s")
  case Nil
  with assms show ?thesis by (simp add: strip_def lstrip_def rstrip_Nil)
next
  case (Cons c b)
  then have "\<not> isspace c" by (metis hd_dropWhile list.sel(1) list.simps(3))
  with Cons show ?thesis by (simp add: strip_def lstrip_def rstrip_Cons)
qed

lemma rstrip_hd: "rstrip b = c # r \<Longrightarrow> \<exists>b'. b = c # b'"
  by (cases b) (auto simp: rstrip_Nil rstrip_Cons split: if_splits)

lemma fence_dropWhile: "fence_line l \<Longrightarrow> \<exists>b. dropWhile isspace l = 96 # b"
proof -
  assume f: "fence_line l"
  then have "strip l \<noteq> []" by (auto simp: fence_line_def startswith_def)
  then obtain c b where "dropWhile isspace l = c # b" "strip l = c # rstrip b"
    using strip_hd by blast
  with f show ?thesis by (auto simp: fence_line_def startswith_def)
qed

lemma fence_not_blank: "fence_line l \<Longrightarrow> strip l \<noteq> []"
  by (auto simp: fence_line_def startswith_def)

lemma fence_not_item: "fence_line l \<Longrightarrow> \<not> item_match l"
  by (auto dest!: fence_dropWhile simp: item_match_def item_rest_def isdecimal_not_backtick)

lemma fence_not_plain: "fence_line l \<Longrightarrow> \<not> plain_line l"
  by (simp add: plain_line_def)

lemma heading_prefix_hd: "heading_prefix l \<Longrightarrow> \<exists>l'. l = 35 # l'"
  by (cases l) (auto simp: heading_prefix_def Let_def split: if_splits)

lemma not_isspace_35: "\<not> isspace 35"
  by (simp add: isspace_def)

lemma not_isdecimal_35: "\<not> isdecimal 35"
  by (auto dest: isdecimal_cases)

lemma hash_line:
  "strip (35 # l') \<noteq> [] \<and> \<not> fence_line (35 # l') \<and> \<not> sep_match (strip (35 # l')) \<and>
   \<not> item_match (35 # l')"
  by (simp add: strip_def lstrip_def not_isspace_35 rstrip_Cons fence_line_def startswith_def
      sep_match_def item_match_def item_rest_def not_isdecimal_35)

lemma heading_prefix_class:
  "heading_prefix l \<Longrightarrow>
   strip l \<noteq> [] \<and> \<not> fence_line l \<and> \<not> sep_match (strip l) \<and> \<not> item_match l"
  using heading_prefix_hd hash_line by blast

lemma heading_match_prefix: "heading_match l = Some (n, t) \<Longrightarrow> heading_prefix l"
  by (simp add: heading_match_def Let_def split: if_splits)

lemma sep_match_hd: "sep_match s \<Longrightarrow> \<exists>s'. s = 45 # 45 # s'"
proof -
  assume "sep_match s"
  then have len: "3 \<le> length (takeWhile (\<lambda>c. c = 45) s)"
    by (simp add: sep_match_def Let_def)
  then obtain a b r where "takeWhile (\<lambda>c. c = 45) s = a # b # r"
    by (cases "takeWhile (\<lambda>c. c = 45) s"; cases "tl (takeWhile (\<lambda>c. c = 45) s)") auto
  then show ?thesis
    by (cases s; cases "tl s") (auto split: if_splits)
qed

lemma sep_class:
  assumes "sep_match (strip l)"
  shows "strip l \<noteq> [] \<and> \<not> fence_line l \<and> \<not> item_match l \<and> \<not> heading_prefix l"
proof -
  obtain s' where s: "strip l = 45 # 45 # s'"
    using sep_match_hd [OF assms] by blast
  then have ne: "strip l \<noteq> []" by simp
  then obtain c b where d: "dropWhile isspace l = c # b" "strip l = c # rstrip b"
    using strip_hd by blast
  with s have c: "c = 45" and "rstrip b = 45 # s'" by simp_all
  then obtain b' where b: "b = 45 # b'" using rstrip_hd by blast
  have "\<not> fence_line l" using s by (simp add: fence_line_def startswith_def)
  moreover have "\<not> item_match l"
    using d c b by (simp add: item_match_def item_rest_def isspace_def)
  moreover have "\<not> heading_prefix l"
  proof
    assume "heading_prefix l"
    then obtain l' where "l = 35 # l'" using heading_prefix_hd by blast
    with d c show False by (simp add: not_isspace_35)
  qed
  ultimately show ?thesis using ne by simp
qed

lemma list_run_eq:
  "list_run items ls = (items @ map item_text (takeWhile item_match ls), dropWhile item_match ls)"
  by (induction ls arbitrary: items) simp_all

lemma para_run_eq:
  "para_run ps ls = (ps @ map strip (takeWhile plain_line ls), dropWhile plain_line ls)"
  by (induction ls arbitrary: ps) (simp_all add: plain_line_def)

lemma blank_not_item: "strip l = [] \<Longrightarrow> \<not> item_match l"
  by (simp add: strip_empty_iff item_match_def item_rest_def dropWhile_eq_Nil_conv [THEN iffD2])

lemma item_class:
  "item_match l \<Longrightarrow>
   strip l \<noteq> [] \<and> \<not> fence_line l \<and> \<not> sep_match (strip l) \<and> \<not> heading_prefix l \<and>
   heading_match l = None"
  using blank_not_item fence_not_item sep_class heading_prefix_class
  by (auto simp: heading_match_def Let_def)

lemma loop_Nil: "loop bs ic cb [] = (bs, ic, cb)"
  by simp

lemma loop_fence_close:
  "fence_line l \<Longrightarrow>
   loop bs True cb (l # r) = loop (bs @ [Code (rstrip (join [10] cb))]) False [] r"
  by simp

lemma loop_fence_open: "fence_line l \<Longrightarrow> loop bs False cb (l # r) = loop bs True cb r"
  by simp

lemma loop_in_code: "\<not> fence_line l \<Longrightarrow> loop bs True cb (l # r) = loop bs True (cb @ [l]) r"
  by simp

lemma loop_blank:
  "\<not> fence_line l \<Longrightarrow> strip l = [] \<Longrightarrow> loop bs False cb (l # r) = loop bs False cb r"
  by simp

lemma loop_sep:
  "sep_match (strip l) \<Longrightarrow> loop bs False cb (l # r) = loop (bs @ [Separator]) False cb r"
  using sep_class [of l] by simp

lemma loop_heading:
  "heading_match l = Some (n, t) \<Longrightarrow>
   loop bs False cb (l # r) = loop (bs @ [Heading n (strip t)]) False cb r"
  using heading_prefix_class [OF heading_match_prefix, of l n t] by simp

lemma loop_list:
  "item_match l \<Longrightarrow>
   loop bs False cb (l # r) =
     loop (bs @ [ListB (map item_text (takeWhile item_match (l # r)))]) False cb
       (dropWhile item_match (l # r))"
  using item_class [of l] by (simp add: list_run_eq)

lemma loop_para:
  "para_start l \<Longrightarrow>
   loop bs False cb (l # r) =
     loop (bs @ [Para (strip (join [32] (strip l # map strip (takeWhile plain_line r))))])
       False cb (dropWhile plain_line r)"
  by (simp add: para_start_def para_run_eq)

lemma line_cases:
  obtains (fence) "fence_line l"
  | (blank) "\<not> fence_line l" "strip l = []"
  | (sep) "sep_match (strip l)"
  | (heading) n t where "heading_match l = Some (n, t)"
  | (item) "item_match l"
  | (para) "para_start l"
  by (cases "heading_match l") (auto simp: para_start_def)

declare loop.simps [simp del]

lemma loop_acc:
  "loop (bs @ xs) ic cb ls = (bs @ fst (loop xs ic cb ls), snd (loop xs ic cb ls))"
proof (induction ls arbitrary: xs ic cb rule: length_induct)
  case (1 ls)
  show ?case
  proof (cases ls)
    case Nil
    then show ?thesis by (simp add: loop_Nil)
  next
    case (Cons l r)
    have IH: "loop (bs @ ys) ic' cb' r' = (bs @ fst (loop ys ic' cb' r'), snd (loop ys ic' cb' r'))"
      if "length r' \<le> length r" for ys ic' cb' r'
      using 1 that Cons by simp
    show ?thesis
    proof (cases ic)
      case True
      then show ?thesis
        by (cases "fence_line l") (simp_all add: Cons loop_fence_close loop_in_code IH)
    next
      case False
      show ?thesis
      proof (cases l rule: line_cases)
        case fence
        then show ?thesis by (simp add: Cons False loop_fence_open IH)
      next
        case blank
        then show ?thesis by (simp add: Cons False loop_blank IH)
      next
        case sep
        then show ?thesis by (simp add: Cons False loop_sep IH)
      next
        case (heading n t)
        then show ?thesis by (simp add: Cons False loop_heading IH)
      next
        case item
        have "length (dropWhile item_match r) \<le> length r"
          by (rule length_dropWhile_le)
        then show ?thesis using item by (simp add: Cons False loop_list IH)
      next
        case para
        have "length (dropWhile plain_line r) \<le> length r"
          by (rule length_dropWhile_le)
        then show ?thesis using para by (simp add: Cons False loop_para IH)
      qed
    qed
  qed
qed

lemma loop_blocks: "loop bs ic cb ls = (bs @ fst (loop [] ic cb ls), snd (loop [] ic cb ls))"
  using loop_acc [of bs "[]"] by simp

lemma plain_para: "plain_line l \<Longrightarrow> para_start l"
  by (simp add: plain_line_def para_start_def heading_match_def Let_def)

lemma run_append_stop:
  "post = [] \<or> \<not> P (hd post) \<Longrightarrow>
   takeWhile P (r @ post) = takeWhile P r \<and> dropWhile P (r @ post) = dropWhile P r @ post"
  by (induction r) (cases post, auto)

lemma run_append_inside:
  "dropWhile P r \<noteq> [] \<Longrightarrow>
   takeWhile P (r @ post) = takeWhile P r \<and> dropWhile P (r @ post) = dropWhile P r @ post"
  by (induction r) auto

lemma run_append:
  "post = [] \<or> \<not> P (hd post) \<or> dropWhile P r \<noteq> [] \<Longrightarrow>
   takeWhile P (r @ post) = takeWhile P r \<and> dropWhile P (r @ post) = dropWhile P r @ post"
  using run_append_stop [of post P r] run_append_inside [of P r post] by blast

lemma last_dropWhile: "dropWhile P r \<noteq> [] \<Longrightarrow> last (dropWhile P r) = last r"
  by (induction r) (auto split: if_splits)

lemma dropWhile_Nil_last: "dropWhile P r = [] \<Longrightarrow> r \<noteq> [] \<Longrightarrow> P (last r)"
  by (induction r) (auto split: if_splits)

lemma seam_tl: "seam (l # r) post \<Longrightarrow> seam r post"
  by (auto simp: seam_def)

lemma seam_dropWhile:
  assumes "seam (l # r) post"
  shows "seam (dropWhile P r) post"
proof (cases "dropWhile P r = []")
  case True
  then show ?thesis by (simp add: seam_def)
next
  case False
  then have "r \<noteq> []" by auto
  with assms False show ?thesis by (simp add: seam_def last_dropWhile)
qed

lemma loop_append:
  "seam pre post \<Longrightarrow>
   loop bs ic cb (pre @ post) = (case loop bs ic cb pre of (bs', ic', cb') \<Rightarrow> loop bs' ic' cb' post)"
proof (induction pre arbitrary: bs ic cb rule: length_induct)
  case (1 pre)
  show ?case
  proof (cases pre)
    case Nil
    then show ?thesis by (simp add: loop_Nil)
  next
    case (Cons l r)
    have IH: "loop bs' ic' cb' (r' @ post) =
        (case loop bs' ic' cb' r' of (bs'', ic'', cb'') \<Rightarrow> loop bs'' ic'' cb'' post)"
      if "length r' \<le> length r" "seam r' post" for bs' ic' cb' r'
      using 1 that Cons by simp
    have sr: "seam r post" using "1.prems" Cons seam_tl by blast
    show ?thesis
    proof (cases ic)
      case True
      then show ?thesis using sr
        by (cases "fence_line l") (simp_all add: Cons loop_fence_close loop_in_code IH)
    next
      case False
      show ?thesis
      proof (cases l rule: line_cases)
        case fence
        then show ?thesis using sr by (simp add: Cons False loop_fence_open IH)
      next
        case blank
        then show ?thesis using sr by (simp add: Cons False loop_blank IH)
      next
        case sep
        then show ?thesis using sr by (simp add: Cons False loop_sep IH)
      next
        case (heading n t)
        then show ?thesis using sr by (simp add: Cons False loop_heading IH)
      next
        case item
        have len: "length (dropWhile item_match r) \<le> length r"
          by (rule length_dropWhile_le)
        have sd: "seam (dropWhile item_match r) post"
          using "1.prems" Cons seam_dropWhile by blast
        have "post = [] \<or> \<not> item_match (hd post) \<or> dropWhile item_match r \<noteq> []"
        proof (cases "dropWhile item_match r = []")
          case True
          then have "item_match (last (l # r))"
            using item dropWhile_Nil_last [of item_match r] by (cases "r = []") simp_all
          then show ?thesis using "1.prems" Cons by (auto simp: seam_def)
        qed simp
        then have "takeWhile item_match (r @ post) = takeWhile item_match r \<and>
            dropWhile item_match (r @ post) = dropWhile item_match r @ post"
          by (rule run_append)
        then show ?thesis using item len sd by (simp add: Cons False loop_list IH)
      next
        case para
        have len: "length (dropWhile plain_line r) \<le> length r"
          by (rule length_dropWhile_le)
        have sd: "seam (dropWhile plain_line r) post"
          using "1.prems" Cons seam_dropWhile by blast
        have "post = [] \<or> \<not> plain_line (hd post) \<or> dropWhile plain_line r \<noteq> []"
        proof (cases "dropWhile plain_line r = []")
          case True
          then have "para_start (last (l # r))"
            using para dropWhile_Nil_last [of plain_line r] plain_para
            by (cases "r = []") simp_all
          then show ?thesis using "1.prems" Cons by (auto simp: seam_def)
        qed simp
        then have "takeWhile plain_line (r @ post) = takeWhile plain_line r \<and>
            dropWhile plain_line (r @ post) = dropWhile plain_line r @ post"
          by (rule run_append)
        then show ?thesis using para len sd by (simp add: Cons False loop_para IH)
      qed
    qed
  qed
qed

lemma loop_code_lines:
  "\<forall>l\<in>set ls. \<not> fence_line l \<Longrightarrow> loop bs True cb (ls @ rest) = loop bs True (cb @ ls) rest"
  by (induction ls arbitrary: cb) (simp_all add: loop_in_code)

lemma filter_dropWhile:
  "(\<And>x. Q x \<Longrightarrow> \<not> P x) \<Longrightarrow> filter Q (dropWhile P xs) = filter Q xs"
  by (induction xs) auto

lemma loop_final:
  "ic \<or> cb = [] \<Longrightarrow>
   fst (snd (loop bs ic cb ls)) = (ic \<noteq> odd (length (filter fence_line ls))) \<and>
   (fst (snd (loop bs ic cb ls)) \<or> snd (snd (loop bs ic cb ls)) = [])"
proof (induction ls arbitrary: bs ic cb rule: length_induct)
  case (1 ls)
  show ?case
  proof (cases ls)
    case Nil
    then show ?thesis using "1.prems" by (auto simp add: loop_Nil)
  next
    case (Cons l r)
    have IH: "fst (snd (loop bs' ic' cb' r')) = (ic' \<noteq> odd (length (filter fence_line r'))) \<and>
        (fst (snd (loop bs' ic' cb' r')) \<or> snd (snd (loop bs' ic' cb' r')) = [])"
      if "length r' \<le> length r" "ic' \<or> cb' = []" for bs' ic' cb' r'
    proof -
      have "length r' < length ls" using that Cons by simp
      then show ?thesis using "1.IH" that(2) by blast
    qed
    show ?thesis
    proof (cases ic)
      case True
      show ?thesis
      proof (cases "fence_line l")
        case f: True
        show ?thesis
          using IH [where r' = r and ic' = False and cb' = "[]"
              and bs' = "bs @ [Code (rstrip (join [10] cb))]"] f
          by (auto simp add: Cons True loop_fence_close)
      next
        case f: False
        show ?thesis
          using IH [where r' = r and ic' = True and cb' = "cb @ [l]" and bs' = bs] f
          by (auto simp add: Cons True loop_in_code)
      qed
    next
      case False
      then have cb: "cb = []" using "1.prems" by simp
      show ?thesis
      proof (cases l rule: line_cases)
        case fence
        then show ?thesis
          using IH [where r' = r and ic' = True and cb' = "[]" and bs' = bs]
          by (auto simp add: Cons False cb loop_fence_open)
      next
        case blank
        then show ?thesis
          using IH [where r' = r and ic' = False and cb' = "[]" and bs' = bs]
          by (auto simp add: Cons False cb loop_blank)
      next
        case sep
        then show ?thesis
          using sep_class [of l]
            IH [where r' = r and ic' = False and cb' = "[]" and bs' = "bs @ [Separator]"]
          by (auto simp add: Cons False cb loop_sep)
      next
        case (heading n t)
        then show ?thesis
          using heading_prefix_class [OF heading_match_prefix, of l n t]
            IH [where r' = r and ic' = False and cb' = "[]"
              and bs' = "bs @ [Heading n (strip t)]"]
          by (auto simp add: Cons False cb loop_heading)
      next
        case item
        have len: "length (dropWhile item_match r) \<le> length r"
          by (rule length_dropWhile_le)
        have "filter fence_line (dropWhile item_match r) = filter fence_line r"
          by (rule filter_dropWhile) (rule fence_not_item)
        then show ?thesis
          using item item_class [of l]
            IH [OF len, where ic' = False and cb' = "[]"
              and bs' = "bs @ [ListB (map item_text (takeWhile item_match (l # r)))]"]
          by (auto simp add: Cons False cb loop_list)
      next
        case para
        have len: "length (dropWhile plain_line r) \<le> length r"
          by (rule length_dropWhile_le)
        have "filter fence_line (dropWhile plain_line r) = filter fence_line r"
          by (rule filter_dropWhile) (rule fence_not_plain)
        then show ?thesis
          using para
            IH [OF len, where ic' = False and cb' = "[]"
              and bs' = "bs @ [Para (strip (join [32] (strip l # map strip (takeWhile plain_line r))))]"]
          by (auto simp add: Cons False cb loop_para para_start_def)
      qed
    qed
  qed
qed

lemma splitlines_from_no_nl:
  "10 \<notin> set cur \<Longrightarrow> l \<in> set (splitlines_from cur s) \<Longrightarrow> 10 \<notin> set l"
  by (induction cur s rule: splitlines_from.induct)
    (auto simp: is_linebreak_def split: if_splits)

lemma splitlines_no_nl: "l \<in> set (splitlines text) \<Longrightarrow> 10 \<notin> set l"
  using splitlines_from_no_nl [of "[]" l "text"] by (simp add: splitlines_def)

lemma heading_match_None: "10 \<notin> set l \<Longrightarrow> heading_match l = None \<longleftrightarrow> \<not> heading_prefix l"
  by (auto simp: heading_match_def Let_def dest!: in_set_butlastD set_dropWhileD in_set_dropD)

lemma para_plain: "10 \<notin> set l \<Longrightarrow> para_start l \<longleftrightarrow> plain_line l"
  by (auto simp: para_start_def plain_line_def heading_match_None)

lemma parse_lines_append:
  assumes "even (length (filter fence_line pre))" and "seam pre rest"
  shows "parse_lines (pre @ rest) = parse_lines pre @ parse_lines rest"
proof -
  obtain bs ic cb where l: "loop [] False [] pre = (bs, ic, cb)"
    by (cases "loop [] False [] pre") auto
  have "\<not> ic \<and> (ic \<or> cb = [])"
    using loop_final [of False "[]" "[]" pre] assms(1) l by auto
  then have "loop [] False [] pre = (bs, False, [])"
    using l by auto
  then have "loop [] False [] (pre @ rest) = loop bs False [] rest"
    using loop_append [OF assms(2), of "[]" False "[]"] by simp
  then show ?thesis
    using loop_blocks [of bs False "[]" rest] l by (simp add: parse_lines_def)
qed

lemma seam_not_run: "\<not> item_match l \<Longrightarrow> \<not> plain_line l \<Longrightarrow> seam pre (l # post)"
  by (simp add: seam_def)


lemma parse_lines_sep:
  "sep_match (strip l) \<Longrightarrow> parse_lines (l # post) = Separator # parse_lines post"
  using loop_blocks [of "[Separator]" False "[]" post]
  by (simp add: parse_lines_def loop_sep)


lemma loop_unclosed:
  assumes "fence_line opening" and "\<forall>l\<in>set rest. \<not> fence_line l"
  shows "loop bs False [] (opening # rest) = (bs, True, rest)"
  using assms loop_code_lines [of rest bs "[]" "[]"]
  by (simp add: loop_fence_open loop_Nil)

lemma takeWhile_all: "\<forall>x\<in>set xs. P x \<Longrightarrow> takeWhile P xs = xs \<and> dropWhile P xs = []"
  by (induction xs) auto

lemma run_stop:
  assumes "\<forall>x\<in>set r. P x" and "post = [] \<or> \<not> P (hd post)"
  shows "takeWhile P (r @ post) = r \<and> dropWhile P (r @ post) = post"
  using assms(2) run_append_stop [of post P r] takeWhile_all [OF assms(1)] by simp

lemma parse_lines_list:
  assumes "run \<noteq> []" and "\<forall>l\<in>set run. item_match l" and "post = [] \<or> \<not> item_match (hd post)"
  shows "parse_lines (run @ post) = ListB (map item_text run) # parse_lines post"
proof -
  obtain l r where run: "run = l # r" using assms(1) by (cases run) auto
  have "takeWhile item_match (r @ post) = r \<and> dropWhile item_match (r @ post) = post"
    using assms(2,3) run by (intro run_stop) auto
  then show ?thesis
    using assms(2) run loop_blocks [of "[ListB (map item_text run)]" False "[]" post]
    by (simp add: parse_lines_def loop_list)
qed

lemma parse_lines_para:
  assumes "run \<noteq> []" and "\<forall>l\<in>set run. plain_line l" and "post = [] \<or> \<not> plain_line (hd post)"
  shows "parse_lines (run @ post) = Para (strip (join [32] (map strip run))) # parse_lines post"
proof -
  obtain l r where run: "run = l # r" using assms(1) by (cases run) auto
  have "takeWhile plain_line (r @ post) = r \<and> dropWhile plain_line (r @ post) = post"
    using assms(2,3) run by (intro run_stop) auto
  moreover have "para_start l" using assms(2) run plain_para by simp
  ultimately show ?thesis
    using run loop_blocks [of "[Para (strip (join [32] (map strip run)))]" False "[]" post]
    by (simp add: parse_lines_def loop_para)
qed

lemma strip_id: "s \<noteq> [] \<Longrightarrow> \<not> isspace (hd s) \<Longrightarrow> \<not> isspace (last s) \<Longrightarrow> strip s = s"
proof -
  assume s: "s \<noteq> []" and h: "\<not> isspace (hd s)" and l: "\<not> isspace (last s)"
  have "dropWhile isspace s = s" using s h by (cases s) auto
  moreover have "dropWhile isspace (rev s) = rev s"
    using s l by (cases "rev s") (auto simp: last_rev [symmetric] simp del: last_rev)
  ultimately show ?thesis by (simp add: strip_def lstrip_def rstrip_def)
qed

lemma rstrip_last: "rstrip s \<noteq> [] \<Longrightarrow> \<not> isspace (last (rstrip s))"
  using hd_dropWhile [of isspace "rev s"] by (simp add: rstrip_def last_rev)

lemma strip_ends: "strip l \<noteq> [] \<Longrightarrow> \<not> isspace (hd (strip l)) \<and> \<not> isspace (last (strip l))"
  using strip_hd [of l] rstrip_last [of "lstrip l"] by (auto simp: strip_def)

lemma join_hd: "x \<noteq> [] \<Longrightarrow> join sep (x # xs) \<noteq> [] \<and> hd (join sep (x # xs)) = hd x"
  by (cases xs) auto

lemma join_nonempty: "xs \<noteq> [] \<Longrightarrow> last xs \<noteq> [] \<Longrightarrow> join sep xs \<noteq> []"
  by (induction sep xs rule: join.induct) auto

lemma join_last: "xs \<noteq> [] \<Longrightarrow> last xs \<noteq> [] \<Longrightarrow> last (join sep xs) = last (last xs)"
proof (induction sep xs rule: join.induct)
  case (3 sep x y ys)
  then have "join sep (y # ys) \<noteq> []" using join_nonempty [of "y # ys" sep] by simp
  with 3 show ?case by simp
qed simp_all

lemma strip_join:
  assumes "run \<noteq> []" and "\<forall>l\<in>set run. strip l \<noteq> []"
  shows "strip (join [32] (map strip run)) = join [32] (map strip run)"
proof -
  obtain l r where run: "run = l # r" using assms(1) by (cases run) auto
  let ?xs = "map strip run"
  have ne: "?xs \<noteq> []" using assms(1) by simp
  have h: "join [32] ?xs \<noteq> [] \<and> hd (join [32] ?xs) = hd (strip l)"
    using assms(2) run join_hd [of "strip l" "[32]" "map strip r"] by simp
  have "last ?xs = strip (last run)" using assms(1) by (simp add: last_map)
  moreover have "last run \<in> set run" using assms(1) by simp
  ultimately have "last ?xs \<noteq> [] \<and> \<not> isspace (last (last ?xs))"
    using assms(2) strip_ends by auto
  then have "\<not> isspace (last (join [32] ?xs))"
    using join_last [OF ne, of "[32]"] by simp
  moreover have "\<not> isspace (hd (join [32] ?xs))"
    using h assms(2) run strip_ends [of l] by simp
  ultimately show ?thesis using h strip_id by blast
qed

lemma rstrip_idem: "rstrip (rstrip s) = rstrip s"
  by (simp add: rstrip_def)



lemma heading_level: "heading_match l = Some (n, t) \<Longrightarrow> 1 \<le> n \<and> n \<le> 6"
  by (auto simp: heading_match_def heading_prefix_def Let_def split: if_splits)

lemma sep_shape: "3 \<le> n \<Longrightarrow> sep_match (replicate n 45)"
  by (simp add: sep_match_def takeWhile_replicate dropWhile_replicate)

lemma not_isdecimal_marker: "\<not> isdecimal 42 \<and> \<not> isdecimal 45 \<and> \<not> isdecimal 46"
  by (auto dest: isdecimal_cases)

lemma item_bullet:
  assumes "\<forall>c\<in>set ws. isspace c" and "m = 45 \<or> m = 42" and "isspace w"
  shows "item_rest (ws @ m # w # r) = Some (dropWhile isspace r)"
proof -
  have "\<not> isspace m" using assms(2) isspace_not_marker by blast
  then have "dropWhile isspace (ws @ m # w # r) = m # w # r"
    using assms(1) by (simp add: dropWhile_append2)
  then show ?thesis using assms(2,3) by (auto simp add: item_rest_def)
qed

lemma item_number:
  assumes "\<forall>c\<in>set ws. isspace c" and "ds \<noteq> []" and "\<forall>c\<in>set ds. isdecimal c" and "isspace w"
  shows "item_rest (ws @ ds @ 46 # w # r) = Some (dropWhile isspace r)"
proof -
  obtain d ds' where ds: "ds = d # ds'" using assms(2) by (cases ds) auto
  have d: "isdecimal d" using assms(3) ds by simp
  then have nd: "\<not> isspace d \<and> d \<noteq> 45 \<and> d \<noteq> 42"
    using isdecimal_not_space not_isdecimal_marker by blast
  then have a: "dropWhile isspace (ws @ ds @ 46 # w # r) = d # ds' @ 46 # w # r"
    using assms(1) ds by (simp add: dropWhile_append2)
  have b: "dropWhile isdecimal (ds' @ 46 # w # r) = 46 # w # r"
    using assms(3) ds not_isdecimal_marker by (simp add: dropWhile_append2)
  show ?thesis using nd d assms(4) by (simp add: item_rest_def a b)
qed

lemma block_ok_simps:
  "block_ok (Code (rstrip s))" "block_ok Separator" "block_ok (Para t)"
  "block_ok (ListB items) \<longleftrightarrow> items \<noteq> []"
  "block_ok (Heading n t) \<longleftrightarrow> 1 \<le> n \<and> n \<le> 6"
  by (simp_all add: block_ok_def rstrip_idem)

lemma loop_ok:
  "list_all block_ok bs \<Longrightarrow> list_all block_ok (fst (loop bs ic cb ls))"
proof (induction ls arbitrary: bs ic cb rule: length_induct)
  case (1 ls)
  show ?case
  proof (cases ls)
    case Nil
    then show ?thesis using "1.prems" by (simp add: loop_Nil)
  next
    case (Cons l r)
    have IH: "list_all block_ok (fst (loop bs' ic' cb' r'))"
      if "length r' \<le> length r" "list_all block_ok bs'" for bs' ic' cb' r'
    proof -
      have "length r' < length ls" using that Cons by simp
      then show ?thesis using "1.IH" that(2) by blast
    qed
    note ok = "1.prems"
    show ?thesis
    proof (cases ic)
      case True
      show ?thesis
      proof (cases "fence_line l")
        case f: True
        show ?thesis
          using IH [where r' = r and ic' = False and cb' = "[]"
              and bs' = "bs @ [Code (rstrip (join [10] cb))]"] f ok
          by (simp add: Cons True loop_fence_close block_ok_simps)
      next
        case f: False
        show ?thesis
          using IH [where r' = r and ic' = True and cb' = "cb @ [l]" and bs' = bs] f ok
          by (simp add: Cons True loop_in_code)
      qed
    next
      case False
      show ?thesis
      proof (cases l rule: line_cases)
        case fence
        then show ?thesis
          using IH [where r' = r and ic' = True and cb' = cb and bs' = bs] ok
          by (simp add: Cons False loop_fence_open)
      next
        case blank
        then show ?thesis
          using IH [where r' = r and ic' = False and cb' = cb and bs' = bs] ok
          by (simp add: Cons False loop_blank)
      next
        case sep
        then show ?thesis
          using IH [where r' = r and ic' = False and cb' = cb and bs' = "bs @ [Separator]"] ok
          by (simp add: Cons False loop_sep block_ok_simps)
      next
        case (heading n t)
        then show ?thesis
          using heading_level [of l n t]
            IH [where r' = r and ic' = False and cb' = cb
              and bs' = "bs @ [Heading n (strip t)]"] ok
          by (simp add: Cons False loop_heading block_ok_simps)
      next
        case item
        have len: "length (dropWhile item_match r) \<le> length r"
          by (rule length_dropWhile_le)
        show ?thesis
          using item ok
            IH [OF len, where ic' = False and cb' = cb
              and bs' = "bs @ [ListB (map item_text (takeWhile item_match (l # r)))]"]
          by (simp add: Cons False loop_list block_ok_simps)
      next
        case para
        have len: "length (dropWhile plain_line r) \<le> length r"
          by (rule length_dropWhile_le)
        show ?thesis
          using para ok
            IH [OF len, where ic' = False and cb' = cb
              and bs' = "bs @ [Para (strip (join [32] (strip l # map strip (takeWhile plain_line r))))]"]
          by (simp add: Cons False loop_para block_ok_simps)
      qed
    qed
  qed
qed

lemma loop_pre:
  assumes "even (length (filter fence_line pre))"
  shows "loop [] False [] pre = (parse_lines pre, False, [])"
proof -
  obtain bs ic cb where l: "loop [] False [] pre = (bs, ic, cb)"
    by (cases "loop [] False [] pre") auto
  have "\<not> ic \<and> (ic \<or> cb = [])"
    using loop_final [of False "[]" "[]" pre] assms l by auto
  then show ?thesis using l by (auto simp: parse_lines_def)
qed







lemma seam_fence: "fence_line l \<Longrightarrow> seam pre (l # post)"
  using fence_not_item fence_not_plain by (simp add: seam_def)

lemma plain_not_item: "plain_line l \<Longrightarrow> \<not> item_match l"
  by (simp add: plain_line_def)

lemma item_not_plain: "item_match l \<Longrightarrow> \<not> plain_line l"
  by (simp add: plain_line_def)

lemma two_hyphens_plain:
  assumes "strip l = [45, 45]"
  shows "plain_line l"
proof -
  have ne: "strip l \<noteq> []" using assms by simp
  then obtain c b where d: "dropWhile isspace l = c # b" "strip l = c # rstrip b"
    using strip_hd by blast
  with assms have c: "c = 45" and "rstrip b = [45]" by simp_all
  then obtain b' where b: "b = 45 # b'" using rstrip_hd by blast
  have "\<not> fence_line l" using assms by (simp add: fence_line_def startswith_def)
  moreover have "\<not> item_match l"
    using d c b by (simp add: item_match_def item_rest_def isspace_def)
  moreover have "\<not> heading_prefix l"
  proof
    assume "heading_prefix l"
    then obtain l' where "l = 35 # l'" using heading_prefix_hd by blast
    with d c show False by (simp add: not_isspace_35)
  qed
  moreover have "\<not> sep_match (strip l)" using assms by (simp add: sep_match_def)
  ultimately show ?thesis using ne by (simp add: plain_line_def)
qed

lemmas eval_defs =
  splitlines_def str_def is_linebreak_def fence_line_def strip_def lstrip_def rstrip_def
  startswith_def isspace_def sep_match_def heading_match_def heading_prefix_def item_match_def
  item_rest_def item_text_def isdecimal_def nd_zeros_def plain_line_def Let_def

lemma replicate_numeral: "replicate (numeral k) x = x # replicate (pred_numeral k) x"
  by (simp add: numeral_eq_Suc)



text \<open>
  Claim C2. Let the lines of the input be \<open>pre\<close>, with an even number of fence lines, an
  opening fence line, and lines \<open>rest\<close> of which none is a fence line. Then the scan ends
  inside the fence with \<open>rest\<close> in its buffer, and \<open>parse_markdown\<close> returns the blocks of
  \<open>pre\<close> and nothing else: no code block is emitted for the buffer, whose lines are lost.
\<close>

theorem unterminated_fence_lost:
  assumes "splitlines text = pre @ opening # rest"
    and "even (length (filter fence_line pre))"
    and "fence_line opening"
    and "\<forall>l\<in>set rest. \<not> fence_line l"
  shows "loop [] False [] (splitlines text) = (parse_lines pre, True, rest) \<and>
    parse_markdown text = parse_lines pre"
proof -
  have "loop [] False [] (pre @ opening # rest) = loop (parse_lines pre) False [] (opening # rest)"
    using loop_append [OF seam_fence [OF assms(3)], of "[]" False "[]" pre rest]
      loop_pre [OF assms(2)] by simp
  then have "loop [] False [] (splitlines text) = (parse_lines pre, True, rest)"
    using assms(1,3,4) by (simp add: loop_unclosed)
  then show ?thesis by (simp add: parse_markdown_def parse_lines_def)
qed

theorem unterminated_fence_lost_witness:
  "splitlines (str ''p'' @ 10 # str ''```'' @ 10 # str ''lost'') =
     [str ''p''] @ str ''```'' # [str ''lost''] \<and>
   fence_line (str ''```'') \<and> \<not> fence_line (str ''lost'') \<and>
   loop [] False [] (splitlines (str ''p'' @ 10 # str ''```'' @ 10 # str ''lost'')) =
     ([Para (str ''p'')], True, [str ''lost'']) \<and>
   parse_markdown (str ''p'' @ 10 # str ''```'' @ 10 # str ''lost'') = [Para (str ''p'')]"
proof -
  let ?T = "str ''p'' @ 10 # str ''```'' @ 10 # str ''lost''"
  have lines: "splitlines ?T = [str ''p''] @ str ''```'' # [str ''lost'']"
    by (simp add: eval_defs)
  have before: "even (length (filter fence_line [str ''p'']))"
    by (simp add: eval_defs)
  have fence1: "fence_line (str ''```'')"
    by (simp add: eval_defs)
  have inside: "\<not> fence_line (str ''lost'')"
    by (simp add: eval_defs)
  then have rest: "\<forall>l\<in>set [str ''lost'']. \<not> fence_line l"
    by simp
  have p1: "parse_lines [str ''p''] = [Para (str ''p'')]"
    by (simp add: parse_lines_def loop.simps eval_defs)
  note main = unterminated_fence_lost [OF lines before fence1 rest]
  have state: "loop [] False [] (splitlines ?T) = ([Para (str ''p'')], True, [str ''lost''])"
    using main [THEN conjunct1] unfolding p1 .
  have res: "parse_markdown ?T = [Para (str ''p'')]"
    using main [THEN conjunct2] unfolding p1 .
  from lines fence1 inside state res show ?thesis
    by (intro conjI)
qed

text \<open>
  Claim C3. Let the lines of the input be \<open>pre\<close>, with an even number of fence lines, a
  run of one or more lines that are not blank and are neither fence, heading, list-item
  nor separator lines, and \<open>post\<close>, where the run is maximal: the line before it, if any,
  and the line after it, if any, are not such lines. Then \<open>parse_markdown\<close> emits, between
  the blocks of \<open>pre\<close> and the blocks of \<open>post\<close>, one paragraph block whose text is the
  lines of the run, each trimmed, joined by single spaces. The line that ends the run is
  the first line of \<open>post\<close>: it is not consumed, and is parsed with \<open>post\<close>.
\<close>

theorem paragraph_run:
  assumes "splitlines text = pre @ run @ post"
    and "even (length (filter fence_line pre))"
    and "run \<noteq> []"
    and "\<forall>l\<in>set run. plain_line l"
    and "pre = [] \<or> \<not> plain_line (last pre)"
    and "post = [] \<or> \<not> plain_line (hd post)"
  shows "parse_markdown text =
    parse_lines pre @ [Para (join [32] (map strip run))] @ parse_lines post"
proof -
  have hd: "plain_line (hd (run @ post))" using assms(3,4) by (cases run) auto
  have "seam pre (run @ post)"
  proof (cases "pre = []")
    case True
    then show ?thesis by (simp add: seam_def)
  next
    case False
    then have "last pre \<in> set (splitlines text)" using assms(1) by simp
    then have "para_start (last pre) = plain_line (last pre)"
      using splitlines_no_nl para_plain by blast
    then show ?thesis using assms(5) False hd plain_not_item by (auto simp: seam_def)
  qed
  then have "parse_lines (pre @ run @ post) = parse_lines pre @ parse_lines (run @ post)"
    using assms(2) by (intro parse_lines_append)
  moreover have "\<forall>l\<in>set run. strip l \<noteq> []" using assms(4) by (simp add: plain_line_def)
  ultimately show ?thesis
    using assms(1,3,4,6) by (simp add: parse_markdown_def parse_lines_para strip_join)
qed

theorem paragraph_run_witness:
  "splitlines (str ''Hello'' @ 10 # str ''world.'') = [] @ [str ''Hello'', str ''world.''] @ [] \<and>
   plain_line (str ''Hello'') \<and> plain_line (str ''world.'') \<and>
   parse_markdown (str ''Hello'' @ 10 # str ''world.'') = [Para (str ''Hello world.'')] \<and>
   splitlines (str ''# T'' @ 10 # str '' one '' @ 10 # str ''two'' @ 10 # str ''- a'') =
     [str ''# T''] @ [str '' one '', str ''two''] @ [str ''- a''] \<and>
   plain_line (str '' one '') \<and> plain_line (str ''two'') \<and>
   \<not> plain_line (str ''# T'') \<and> \<not> plain_line (str ''- a'') \<and>
   parse_markdown (str ''# T'' @ 10 # str '' one '' @ 10 # str ''two'' @ 10 # str ''- a'') =
     [Heading 1 (str ''T''), Para (str ''one two''), ListB [str ''a'']]"
proof -
  let ?T = "str ''Hello'' @ 10 # str ''world.''"
  let ?U = "str ''# T'' @ 10 # str '' one '' @ 10 # str ''two'' @ 10 # str ''- a''"
  have lines: "splitlines ?T = [] @ [str ''Hello'', str ''world.''] @ []"
    by (simp add: eval_defs)
  have before: "even (length (filter fence_line []))"
    by simp
  have nonempty: "[str ''Hello'', str ''world.''] \<noteq> []"
    by simp
  have plain1: "plain_line (str ''Hello'')"
    by (simp add: eval_defs)
  have plain2: "plain_line (str ''world.'')"
    by (simp add: eval_defs)
  have run: "\<forall>l\<in>set [str ''Hello'', str ''world.'']. plain_line l"
    using plain1 plain2 by simp
  have first: "([]::pystr list) = [] \<or> \<not> plain_line (last [])"
    by simp
  have final: "([]::pystr list) = [] \<or> \<not> plain_line (hd [])"
    by simp
  have p0: "parse_lines [] = []"
    by (simp add: parse_lines_def loop.simps)
  have t: "join [32] (map strip [str ''Hello'', str ''world.'']) = str ''Hello world.''"
    by (simp add: eval_defs)
  have res: "parse_markdown ?T = [Para (str ''Hello world.'')]"
    using paragraph_run [OF lines before nonempty run first final] unfolding p0 t by simp
  have lines': "splitlines ?U = [str ''# T''] @ [str '' one '', str ''two''] @ [str ''- a'']"
    by (simp add: eval_defs)
  have before': "even (length (filter fence_line [str ''# T'']))"
    by (simp add: eval_defs)
  have nonempty': "[str '' one '', str ''two''] \<noteq> []"
    by simp
  have plain3: "plain_line (str '' one '')"
    by (simp add: eval_defs)
  have plain4: "plain_line (str ''two'')"
    by (simp add: eval_defs)
  have run': "\<forall>l\<in>set [str '' one '', str ''two'']. plain_line l"
    using plain3 plain4 by simp
  have not1: "\<not> plain_line (str ''# T'')"
    by (simp add: eval_defs)
  have not2: "\<not> plain_line (str ''- a'')"
    by (simp add: eval_defs)
  have first': "[str ''# T''] = [] \<or> \<not> plain_line (last [str ''# T''])"
    using not1 by simp
  have final': "[str ''- a''] = [] \<or> \<not> plain_line (hd [str ''- a''])"
    using not2 by simp
  have p1: "parse_lines [str ''# T''] = [Heading 1 (str ''T'')]"
    by (simp add: parse_lines_def loop.simps eval_defs)
  have p2: "parse_lines [str ''- a''] = [ListB [str ''a'']]"
    by (simp add: parse_lines_def loop.simps eval_defs)
  have t': "join [32] (map strip [str '' one '', str ''two'']) = str ''one two''"
    by (simp add: eval_defs)
  have res': "parse_markdown ?U = [Heading 1 (str ''T''), Para (str ''one two''), ListB [str ''a'']]"
    using paragraph_run [OF lines' before' nonempty' run' first' final'] unfolding p1 p2 t'
    by simp
  from lines plain1 plain2 res lines' plain3 plain4 not1 not2 res' show ?thesis
    by (intro conjI)
qed

text \<open>
  Claim C4. Let the lines of the input be \<open>pre\<close>, with an even number of fence lines, a
  run of one or more list-item lines, and \<open>post\<close>, where the run is maximal. Then
  \<open>parse_markdown\<close> emits, between the blocks of \<open>pre\<close> and the blocks of \<open>post\<close>, exactly
  one list block, whose items are \<open>item_text\<close> of the lines of the run, in order. A line
  of optional whitespace, a hyphen or an asterisk, a whitespace character and a text is a
  list-item line, and so is one with one or more digits and a full stop for the marker; in
  both cases \<open>item_text\<close> is the text, trimmed, whatever the marker. A blank line is no
  list-item line, so it ends the run.
\<close>

theorem list_block_items:
  assumes "splitlines text = pre @ run @ post"
    and "even (length (filter fence_line pre))"
    and "run \<noteq> []"
    and "\<forall>l\<in>set run. item_match l"
    and "pre = [] \<or> \<not> item_match (last pre)"
    and "post = [] \<or> \<not> item_match (hd post)"
  shows "parse_markdown text =
      parse_lines pre @ [ListB (map item_text run)] @ parse_lines post \<and>
    (\<forall>ws m w r. (\<forall>c\<in>set ws. isspace c) \<and> (m = 45 \<or> m = 42) \<and> isspace w \<longrightarrow>
       item_match (ws @ m # w # r) \<and> item_text (ws @ m # w # r) = strip r) \<and>
    (\<forall>ws ds w r. (\<forall>c\<in>set ws. isspace c) \<and> ds \<noteq> [] \<and> (\<forall>c\<in>set ds. isdecimal c) \<and> isspace w \<longrightarrow>
       item_match (ws @ ds @ 46 # w # r) \<and> item_text (ws @ ds @ 46 # w # r) = strip r) \<and>
    (\<forall>l. strip l = [] \<longrightarrow> \<not> item_match l)"
proof -
  have hd: "item_match (hd (run @ post))" using assms(3,4) by (cases run) auto
  have "seam pre (run @ post)"
    using assms(5) hd item_not_plain by (auto simp: seam_def)
  then have "parse_lines (pre @ run @ post) = parse_lines pre @ parse_lines (run @ post)"
    using assms(2) by (intro parse_lines_append)
  then have "parse_markdown text =
      parse_lines pre @ [ListB (map item_text run)] @ parse_lines post"
    using assms(1,3,4,6) by (simp add: parse_markdown_def parse_lines_list)
  moreover have "item_match (ws @ m # w # r) \<and> item_text (ws @ m # w # r) = strip r"
    if "(\<forall>c\<in>set ws. isspace c) \<and> (m = 45 \<or> m = 42) \<and> isspace w" for ws m w r
    using that item_bullet [of ws m w r]
    by (simp add: item_match_def item_text_def strip_def lstrip_def)
  moreover have "item_match (ws @ ds @ 46 # w # r) \<and> item_text (ws @ ds @ 46 # w # r) = strip r"
    if "(\<forall>c\<in>set ws. isspace c) \<and> ds \<noteq> [] \<and> (\<forall>c\<in>set ds. isdecimal c) \<and> isspace w"
    for ws ds w r
    using that item_number [of ws ds w r]
    by (simp add: item_match_def item_text_def strip_def lstrip_def)
  ultimately show ?thesis using blank_not_item by blast
qed

theorem list_block_items_witness:
  "splitlines (str ''- a'' @ 10 # str ''- b'' @ 10 # str ''1. c'') =
     [] @ [str ''- a'', str ''- b'', str ''1. c''] @ [] \<and>
   item_match (str ''- a'') \<and> item_match (str ''- b'') \<and> item_match (str ''1. c'') \<and>
   parse_markdown (str ''- a'' @ 10 # str ''- b'' @ 10 # str ''1. c'') =
     [ListB [str ''a'', str ''b'', str ''c'']] \<and>
   item_text (str ''  * x  '') = str ''x'' \<and> item_text (str ''12. y'') = str ''y''"
proof -
  let ?T = "str ''- a'' @ 10 # str ''- b'' @ 10 # str ''1. c''"
  have lines: "splitlines ?T = [] @ [str ''- a'', str ''- b'', str ''1. c''] @ []"
    by (simp add: eval_defs)
  have before: "even (length (filter fence_line []))"
    by simp
  have nonempty: "[str ''- a'', str ''- b'', str ''1. c''] \<noteq> []"
    by simp
  have item1: "item_match (str ''- a'')"
    by (simp add: eval_defs)
  have item2: "item_match (str ''- b'')"
    by (simp add: eval_defs)
  have item3: "item_match (str ''1. c'')"
    by (simp add: eval_defs)
  have run: "\<forall>l\<in>set [str ''- a'', str ''- b'', str ''1. c'']. item_match l"
    using item1 item2 item3 by simp
  have first: "([]::pystr list) = [] \<or> \<not> item_match (last [])"
    by simp
  have final: "([]::pystr list) = [] \<or> \<not> item_match (hd [])"
    by simp
  have p0: "parse_lines [] = []"
    by (simp add: parse_lines_def loop.simps)
  have t: "map item_text [str ''- a'', str ''- b'', str ''1. c''] = [str ''a'', str ''b'', str ''c'']"
    by (simp add: eval_defs)
  note main = list_block_items [OF lines before nonempty run first final]
  have res: "parse_markdown ?T = [ListB [str ''a'', str ''b'', str ''c'']]"
    using main [THEN conjunct1] unfolding p0 t by simp
  have sp: "\<forall>c\<in>set [32, 32]. isspace c"
    by (simp add: isspace_def)
  have s32: "isspace 32"
    by (simp add: isspace_def)
  have "item_text ([32, 32] @ 42 # 32 # str ''x  '') = strip (str ''x  '')"
    using main [THEN conjunct2, THEN conjunct1] sp s32 by blast
  moreover have "[32, 32] @ 42 # 32 # str ''x  '' = str ''  * x  ''"
    by (simp add: str_def)
  moreover have "strip (str ''x  '') = str ''x''"
    by (simp add: eval_defs)
  ultimately have shape1: "item_text (str ''  * x  '') = str ''x''"
    by simp
  have nosp: "\<forall>c\<in>set ([]::nat list). isspace c"
    by simp
  have dg: "[49, 50] \<noteq> [] \<and> (\<forall>c\<in>set [49, 50]. isdecimal c)"
    by (simp add: isdecimal_def nd_zeros_def)
  have "item_text ([] @ [49, 50] @ 46 # 32 # str ''y'') = strip (str ''y'')"
    using main [THEN conjunct2, THEN conjunct2, THEN conjunct1] nosp dg s32 by blast
  moreover have "[] @ [49, 50] @ 46 # 32 # str ''y'' = str ''12. y''"
    by (simp add: str_def)
  moreover have "strip (str ''y'') = str ''y''"
    by (simp add: eval_defs)
  ultimately have shape2: "item_text (str ''12. y'') = str ''y''"
    by simp
  from lines item1 item2 item3 res shape1 shape2 show ?thesis
    by (intro conjI)
qed



text \<open>
  Claim C6. Let the lines of the input be \<open>pre\<close>, with an even number of fence lines, a
  line whose trimmed content is \<open>n\<close> hyphens, with \<open>n\<close> at least 3, and \<open>post\<close>. Then
  \<open>parse_markdown\<close> emits, between the blocks of \<open>pre\<close> and the blocks of \<open>post\<close>, exactly
  one separator block. A line whose trimmed content is two hyphens matches no separator:
  it is a paragraph line, and alone it gives one paragraph block with the text \<open>--\<close>.
\<close>

theorem separator_block:
  assumes "splitlines text = pre @ line # post"
    and "even (length (filter fence_line pre))"
    and "strip line = replicate n 45" and "3 \<le> n"
  shows "parse_markdown text = parse_lines pre @ [Separator] @ parse_lines post \<and>
    (\<forall>l. strip l = [45, 45] \<longrightarrow>
       \<not> sep_match (strip l) \<and> plain_line l \<and> parse_lines [l] = [Para [45, 45]])"
proof -
  have s: "sep_match (strip line)" using assms(3,4) by (simp add: sep_shape)
  then have "\<not> item_match line \<and> \<not> plain_line line"
    using sep_class [of line] by (simp add: plain_line_def)
  then have "seam pre (line # post)" by (simp add: seam_not_run)
  then have "parse_lines (pre @ line # post) = parse_lines pre @ parse_lines (line # post)"
    using assms(2) by (intro parse_lines_append)
  then have "parse_markdown text = parse_lines pre @ [Separator] @ parse_lines post"
    using assms(1) s by (simp add: parse_markdown_def parse_lines_sep)
  moreover have "\<not> sep_match (strip l) \<and> plain_line l \<and> parse_lines [l] = [Para [45, 45]]"
    if l: "strip l = [45, 45]" for l
  proof -
    have p: "plain_line l" using l by (rule two_hyphens_plain)
    have "parse_lines ([l] @ []) = Para (strip (join [32] (map strip [l]))) # parse_lines []"
      using p by (intro parse_lines_para) simp_all
    moreover have "strip (join [32] (map strip [l])) = join [32] (map strip [l])"
      using l by (intro strip_join) simp_all
    ultimately have "parse_lines [l] = [Para [45, 45]]"
      using l by (simp add: parse_lines_def loop_Nil)
    then show ?thesis using p by (simp add: plain_line_def)
  qed
  ultimately show ?thesis by blast
qed

theorem separator_block_witness:
  "splitlines (str ''---'') = [] @ str ''---'' # [] \<and>
   strip (str ''---'') = replicate 3 45 \<and>
   parse_markdown (str ''---'') = [Separator] \<and>
   splitlines (str ''a'' @ 10 # str '' ------- '') = [str ''a''] @ str '' ------- '' # [] \<and>
   strip (str '' ------- '') = replicate 7 45 \<and>
   parse_markdown (str ''a'' @ 10 # str '' ------- '') = [Para (str ''a''), Separator] \<and>
   strip (str ''--'') = [45, 45] \<and>
   parse_markdown (str ''--'') = [Para (str ''--'')]"
proof -
  let ?U = "str ''a'' @ 10 # str '' ------- ''"
  have lines: "splitlines (str ''---'') = [] @ str ''---'' # []"
    by (simp add: eval_defs)
  have before: "even (length (filter fence_line []))"
    by simp
  have hyphens: "strip (str ''---'') = replicate 3 45"
    by (simp add: eval_defs replicate_numeral)
  have p0: "parse_lines [] = []"
    by (simp add: parse_lines_def loop.simps)
  note main = separator_block [OF lines before hyphens]
  have res: "parse_markdown (str ''---'') = [Separator]"
    using main [THEN conjunct1] unfolding p0 by simp
  have lines': "splitlines ?U = [str ''a''] @ str '' ------- '' # []"
    by (simp add: eval_defs)
  have before': "even (length (filter fence_line [str ''a'']))"
    by (simp add: eval_defs)
  have hyphens': "strip (str '' ------- '') = replicate 7 45"
    by (simp add: eval_defs replicate_numeral)
  have p1: "parse_lines [str ''a''] = [Para (str ''a'')]"
    by (simp add: parse_lines_def loop.simps eval_defs)
  have res': "parse_markdown ?U = [Para (str ''a''), Separator]"
    using separator_block [OF lines' before' hyphens', THEN conjunct1] unfolding p0 p1 by simp
  have two: "strip (str ''--'') = [45, 45]"
    by (simp add: eval_defs)
  have "parse_lines [str ''--''] = [Para [45, 45]]"
    using main [THEN conjunct2] two by blast
  moreover have "splitlines (str ''--'') = [str ''--'']"
    by (simp add: eval_defs)
  moreover have "str ''--'' = [45, 45]"
    by (simp add: str_def)
  ultimately have res2: "parse_markdown (str ''--'') = [Para (str ''--'')]"
    by (simp add: parse_markdown_def)
  from lines hyphens res lines' hyphens' res' two res2 show ?thesis
    by (intro conjI)
qed

text \<open>
  Claim C10. For every input, every block of \<open>parse_markdown\<close> has one of the five kinds;
  the level of a heading block lies between 1 and 6, a list block has at least one item,
  and the content of a code block has no trailing whitespace (\<open>rstrip\<close> leaves it
  unchanged).
\<close>

theorem blocks_well_formed:
  "\<forall>b\<in>set (parse_markdown text).
     kind b \<in> {''heading'', ''para'', ''list'', ''code'', ''separator''} \<and>
     (\<forall>level t. b = Heading level t \<longrightarrow> 1 \<le> level \<and> level \<le> 6) \<and>
     (\<forall>items. b = ListB items \<longrightarrow> items \<noteq> []) \<and>
     (\<forall>content. b = Code content \<longrightarrow> rstrip content = content)"
proof
  fix b
  assume b: "b \<in> set (parse_markdown text)"
  have "list_all block_ok (fst (loop [] False [] (splitlines text)))"
    by (rule loop_ok) simp
  then have ok: "block_ok b"
    using b by (simp add: parse_markdown_def parse_lines_def list_all_iff)
  have "kind b \<in> {''heading'', ''para'', ''list'', ''code'', ''separator''}"
    by (cases b) simp_all
  then show "kind b \<in> {''heading'', ''para'', ''list'', ''code'', ''separator''} \<and>
     (\<forall>level t. b = Heading level t \<longrightarrow> 1 \<le> level \<and> level \<le> 6) \<and>
     (\<forall>items. b = ListB items \<longrightarrow> items \<noteq> []) \<and>
     (\<forall>content. b = Code content \<longrightarrow> rstrip content = content)"
    using ok by (auto simp: block_ok_def)
qed

theorem blocks_well_formed_witness:
  "parse_markdown (str ''## T'' @ 10 # str ''- a'' @ 10 # str ''```'' @ 10 # str ''x  '' @ 10 # str ''```'') =
     [Heading 2 (str ''T''), ListB [str ''a''], Code (str ''x'')] \<and>
   kind (Heading 2 (str ''T'')) = ''heading'' \<and> kind (ListB [str ''a'']) = ''list'' \<and>
   kind (Code (str ''x'')) = ''code'' \<and>
   (1::nat) \<le> 2 \<and> (2::nat) \<le> 6 \<and> [str ''a''] \<noteq> [] \<and> rstrip (str ''x'') = str ''x''"
proof -
  let ?T = "str ''## T'' @ 10 # str ''- a'' @ 10 # str ''```'' @ 10 # str ''x  '' @ 10 # str ''```''"
  have lines: "splitlines ?T = [str ''## T'', str ''- a'', str ''```'', str ''x  '', str ''```'']"
    by (simp add: eval_defs)
  have "parse_lines [str ''## T'', str ''- a'', str ''```'', str ''x  '', str ''```''] =
      [Heading 2 (str ''T''), ListB [str ''a''], Code (str ''x'')]"
    by (simp add: parse_lines_def loop.simps eval_defs)
  then have res: "parse_markdown ?T = [Heading 2 (str ''T''), ListB [str ''a''], Code (str ''x'')]"
    using lines by (simp only: parse_markdown_def)
  note main = blocks_well_formed [of ?T, unfolded res]
  have "(1::nat) \<le> 2 \<and> (2::nat) \<le> 6" using main by simp
  moreover have "[str ''a''] \<noteq> []" using main by simp
  moreover have "rstrip (str ''x'') = str ''x''" using main by simp
  moreover have "kind (Heading 2 (str ''T'')) = ''heading'' \<and> kind (ListB [str ''a'']) = ''list'' \<and>
      kind (Code (str ''x'')) = ''code''"
    using main by simp
  ultimately show ?thesis using res by simp
qed

section \<open>Properties of the renderer\<close>

lemma build_story_concat:
  "build_story story blocks = story @ concat (map render_block blocks)"
  by (induction blocks arbitrary: story) simp_all

lemma replace_append: "replace old new (xs @ ys) = replace old new xs @ replace old new ys"
  by (simp add: replace_def)

lemma replace_Cons:
  "replace old new (c # s) = (if c = old then new else [c]) @ replace old new s"
  by (simp add: replace_def)

lemma replace_Nil: "replace old new [] = []"
  by (simp add: replace_def)

lemma markup_Cons:
  "replace 96 [] (escape (c # s)) = markup_char c @ replace 96 [] (escape s)"
  by (simp add: escape_def markup_char_def replace_Cons replace_append replace_Nil str_def)

lemma markup_chars: "replace 96 [] (escape s) = concat (map markup_char s)"
proof (induction s)
  case Nil
  show ?case by (simp add: escape_def replace_Nil)
next
  case (Cons c s)
  then show ?case by (simp add: markup_Cons)
qed

text \<open>
  Claim C8. A paragraph block is rendered as one body-styled element whose text is the
  block's text with \<open>&\<close>, \<open><\<close> and \<open>>\<close> replaced by their entities and every backtick
  removed, all other characters unchanged; each item of a list block is rendered the same
  way behind the bullet glyph and a space, and one spacer of fixed size follows the
  items. The story is the concatenation of what each block renders to.
\<close>

theorem rendered_text_escaped:
  "render_block (Para text) = [Paragraph (concat (map markup_char text)) style_body] \<and>
   render_block (ListB items) =
     map (\<lambda>item. Paragraph (bullet @ concat (map markup_char item)) style_body) items
       @ [Spacer 1 2] \<and>
   build_story story blocks = story @ concat (map render_block blocks)"
  by (simp add: markup_chars build_story_concat)

theorem rendered_text_escaped_witness:
  "render_block (Para (str ''a<b & `c` > d'')) =
     [Paragraph (str ''a&lt;b &amp; c &gt; d'') style_body] \<and>
   render_block (ListB [str ''x`y'', str ''R&D'']) =
     [Paragraph ([8226, 32] @ str ''xy'') style_body,
      Paragraph ([8226, 32] @ str ''R&amp;D'') style_body, Spacer 1 2] \<and>
   build_story [] [Para (str ''p''), ListB [str ''q'']] =
     [Paragraph (str ''p'') style_body, Paragraph ([8226, 32] @ str ''q'') style_body,
      Spacer 1 2]"
  using rendered_text_escaped [of "str ''a<b & `c` > d''" "[str ''x`y'', str ''R&D'']" "[]"
      "[Para (str ''p''), ListB [str ''q'']]"]
    rendered_text_escaped [of "str ''p''" "[str ''q'']"]
  by (simp add: markup_char_def str_def bullet_def)

text \<open>
  Claim C7. The blocks of a document with one level-1 heading, one paragraph, one list of
  three items, one code block with content and one separator are rendered, in this
  order, as one element in the H1 style, one in the body style, three bulleted elements
  in the body style and a spacer, one preformatted element in the code style (whose font
  is the monospace one) and a spacer. A code block with empty content adds nothing to
  the story.
\<close>

theorem render_document_order:
  assumes "code \<noteq> []"
  shows "build_story []
       [Heading 1 title, Para text, ListB [a, b, c], Code code, Separator] =
     [Paragraph (escape title) style_h1,
      Paragraph (replace 96 [] (escape text)) style_body,
      Paragraph (bullet @ replace 96 [] (escape a)) style_body,
      Paragraph (bullet @ replace 96 [] (escape b)) style_body,
      Paragraph (bullet @ replace 96 [] (escape c)) style_body,
      Spacer 1 2,
      Preformatted code style_code,
      Spacer 1 8] \<and>
     fontName style_code = ''LiberationMono'' \<and>
     build_story story [Code []] = story"
  using assms by simp

theorem render_document_order_witness:
  "str ''x = 1'' \<noteq> [] \<and>
   build_story []
     [Heading 1 (str ''Title''), Para (str ''Some text.''),
      ListB [str ''a'', str ''b'', str ''c''], Code (str ''x = 1''), Separator] =
     [Paragraph (str ''Title'') style_h1, Paragraph (str ''Some text.'') style_body,
      Paragraph ([8226, 32] @ str ''a'') style_body,
      Paragraph ([8226, 32] @ str ''b'') style_body,
      Paragraph ([8226, 32] @ str ''c'') style_body, Spacer 1 2,
      Preformatted (str ''x = 1'') style_code, Spacer 1 8]"
proof -
  have nonempty: "str ''x = 1'' \<noteq> []"
    by (simp add: str_def)
  have rendered: "build_story []
     [Heading 1 (str ''Title''), Para (str ''Some text.''),
      ListB [str ''a'', str ''b'', str ''c''], Code (str ''x = 1''), Separator] =
     [Paragraph (str ''Title'') style_h1, Paragraph (str ''Some text.'') style_body,
      Paragraph ([8226, 32] @ str ''a'') style_body,
      Paragraph ([8226, 32] @ str ''b'') style_body,
      Paragraph ([8226, 32] @ str ''c'') style_body, Spacer 1 2,
      Preformatted (str ''x = 1'') style_code, Spacer 1 8]"
    using render_document_order [OF nonempty, of "str ''Title''" "str ''Some text.''"
        "str ''a''" "str ''b''" "str ''c''"]
    by (simp add: str_def escape_def replace_def bullet_def)
  from nonempty rendered show ?thesis
    by (intro conjI)
qed

section \<open>Properties of \<open>main\<close>\<close>

text \<open>
  Claim C9, as amended. With an argument count other than two (\<open>len(sys.argv) != 3\<close>),
  \<open>main\<close> prints the usage line and returns 2, and makes no other call. With two
  arguments, when the existence check reports that the input path does not exist, it
  prints a message naming that path and returns 1, and makes no other call. When the
  input exists, it creates the output directory and then calls \<open>build_pdf\<close>, and when
  both return it prints a confirmation naming the output path and returns 0. No
  exception is caught: one raised by the existence check, by \<open>mkdir\<close>, by \<open>build_pdf\<close> or
  by a \<open>print\<close> leaves \<open>main\<close> at that call, with no exit code and nothing done after
  it. The six cases cover every run of \<open>main\<close>.
\<close>

theorem main_exit_codes:
  "(length argv \<noteq> 3 \<longrightarrow>
      main e argv =
        ([Print usage_line],
         case print_line e usage_line of None \<Rightarrow> Inr 2 | Some y \<Rightarrow> Inl y)) \<and>
   (length argv = 3 \<and> path_exists e (path_str e (argv ! 1)) = Inl x \<longrightarrow>
      main e argv = ([], Inl x)) \<and>
   (length argv = 3 \<and> path_exists e (path_str e (argv ! 1)) = Inr False \<longrightarrow>
      main e argv =
        ([Print (str ''Input not found: '' @ path_str e (argv ! 1))],
         case print_line e (str ''Input not found: '' @ path_str e (argv ! 1)) of
           None \<Rightarrow> Inr 1 | Some y \<Rightarrow> Inl y)) \<and>
   (length argv = 3 \<and> path_exists e (path_str e (argv ! 1)) = Inr True \<and>
    mkdir_parent e (path_str e (argv ! 2)) = Some x \<longrightarrow>
      main e argv = ([MakeDirs (path_str e (argv ! 2))], Inl x)) \<and>
   (length argv = 3 \<and> path_exists e (path_str e (argv ! 1)) = Inr True \<and>
    mkdir_parent e (path_str e (argv ! 2)) = None \<and>
    build_pdf e (path_str e (argv ! 1)) (path_str e (argv ! 2)) = Inl x \<longrightarrow>
      main e argv =
        ([MakeDirs (path_str e (argv ! 2)),
          BuildPdf (path_str e (argv ! 1)) (path_str e (argv ! 2))], Inl x)) \<and>
   (length argv = 3 \<and> path_exists e (path_str e (argv ! 1)) = Inr True \<and>
    mkdir_parent e (path_str e (argv ! 2)) = None \<and>
    build_pdf e (path_str e (argv ! 1)) (path_str e (argv ! 2)) = Inr story \<longrightarrow>
      main e argv =
        ([MakeDirs (path_str e (argv ! 2)),
          BuildPdf (path_str e (argv ! 1)) (path_str e (argv ! 2)),
          Print (str ''Generated: '' @ path_str e (argv ! 2))],
         case print_line e (str ''Generated: '' @ path_str e (argv ! 2)) of
           None \<Rightarrow> Inr 0 | Some y \<Rightarrow> Inl y))"
  by (simp add: main_def print_return_def Let_def split: option.split)

theorem main_exit_codes_witness:
  "main (plain_env []) [] = ([Print usage_line], Inr 2) \<and>
   main mute_env [] = ([Print usage_line], Inl UnicodeEncodeError) \<and>
   main blind_env argv_ok = ([], Inl OSError) \<and>
   main (plain_env []) argv_missing = ([Print (str ''Input not found: no.md'')], Inr 1) \<and>
   main mute_env argv_missing =
     ([Print (str ''Input not found: no.md'')], Inl UnicodeEncodeError) \<and>
   main readonly_env argv_ok = ([MakeDirs (str ''out.pdf'')], Inl OSError) \<and>
   main binary_env argv_ok =
     ([MakeDirs (str ''out.pdf''), BuildPdf (str ''in.md'') (str ''out.pdf'')],
      Inl UnicodeDecodeError) \<and>
   main (plain_env []) argv_ok =
     ([MakeDirs (str ''out.pdf''), BuildPdf (str ''in.md'') (str ''out.pdf''),
       Print (str ''Generated: out.pdf'')], Inr 0) \<and>
   main mute_env argv_ok =
     ([MakeDirs (str ''out.pdf''), BuildPdf (str ''in.md'') (str ''out.pdf''),
       Print (str ''Generated: out.pdf'')], Inl UnicodeEncodeError)"
proof -
  note defs = plain_env_def mute_env_def blind_env_def readonly_env_def binary_env_def
    argv_ok_def argv_missing_def str_def build_pdf_def register_fonts_def font_files_def
    parse_markdown_def parse_lines_def splitlines_def loop_Nil
  have usage: "main (plain_env []) [] = ([Print usage_line], Inr 2)"
    using main_exit_codes [where argv = "[]" and e = "plain_env []"] by (simp add: defs)
  have usage_mute: "main mute_env [] = ([Print usage_line], Inl UnicodeEncodeError)"
    using main_exit_codes [where argv = "[]" and e = mute_env] by (simp add: defs)
  have blind: "main blind_env argv_ok = ([], Inl OSError)"
    using main_exit_codes [where argv = argv_ok and e = blind_env and x = OSError]
    by (simp add: defs)
  have missing: "main (plain_env []) argv_missing =
      ([Print (str ''Input not found: no.md'')], Inr 1)"
    using main_exit_codes [where argv = argv_missing and e = "plain_env []"]
    by (simp add: defs)
  have missing_mute: "main mute_env argv_missing =
      ([Print (str ''Input not found: no.md'')], Inl UnicodeEncodeError)"
    using main_exit_codes [where argv = argv_missing and e = mute_env]
    by (simp add: defs)
  have readonly: "main readonly_env argv_ok = ([MakeDirs (str ''out.pdf'')], Inl OSError)"
    using main_exit_codes [where argv = argv_ok and e = readonly_env and x = OSError]
    by (simp add: defs)
  have binary: "main binary_env argv_ok =
      ([MakeDirs (str ''out.pdf''), BuildPdf (str ''in.md'') (str ''out.pdf'')],
       Inl UnicodeDecodeError)"
    using main_exit_codes [where argv = argv_ok and e = binary_env
        and x = UnicodeDecodeError]
    by (simp add: defs)
  have generated: "main (plain_env []) argv_ok =
      ([MakeDirs (str ''out.pdf''), BuildPdf (str ''in.md'') (str ''out.pdf''),
        Print (str ''Generated: out.pdf'')], Inr 0)"
    using main_exit_codes [where argv = argv_ok and e = "plain_env []" and story = "[]"]
    by (simp add: defs)
  have generated_mute: "main mute_env argv_ok =
      ([MakeDirs (str ''out.pdf''), BuildPdf (str ''in.md'') (str ''out.pdf''),
        Print (str ''Generated: out.pdf'')], Inl UnicodeEncodeError)"
    using main_exit_codes [where argv = argv_ok and e = mute_env and story = "[]"]
    by (simp add: defs)
  from usage usage_mute blind missing missing_mute readonly binary generated generated_mute
  show ?thesis
    by (intro conjI)
qed

text \<open>
  The claim as stated fails where \<open>build_pdf\<close> raises: with two arguments and an
  existing input on a host without the font files, \<open>main\<close> ends with the font error and
  prints no confirmation.
\<close>

theorem main_fontless_counterexample:
  "length argv_ok = 3 \<and>
   path_exists (fontless_env []) (path_str (fontless_env []) (argv_ok ! 1)) = Inr True \<and>
   main (fontless_env []) argv_ok =
     ([MakeDirs (str ''out.pdf''), BuildPdf (str ''in.md'') (str ''out.pdf'')], Inl TTFError) \<and>
   snd (main (fontless_env []) argv_ok) \<noteq> Inr 0"
  by (simp add: main_def Let_def argv_ok_def fontless_env_def plain_env_def build_pdf_def
      register_fonts_def font_files_def)

end
